theory Spec2Isabelle
  imports Main "HOL-Library.Multiset"
begin

section \<open>Scores\<close>

text \<open>
  Both engines compute with Python integers and the two floats \<open>-math.inf\<close> and
  \<open>math.inf\<close>. Python compares an \<open>int\<close> with an infinite float exactly, and \<open>max\<close>
  and \<open>min\<close> only select one of their arguments, so a score is an integer extended
  by the two infinities, ordered in the evident way.
\<close>

datatype score = NegInf | Fin int | PosInf

instantiation score :: linorder
begin

fun less_eq_score :: "score \<Rightarrow> score \<Rightarrow> bool" where
  "less_eq_score NegInf _ = True"
| "less_eq_score _ PosInf = True"
| "less_eq_score (Fin x) (Fin y) = (x \<le> y)"
| "less_eq_score _ _ = False"

definition less_score :: "score \<Rightarrow> score \<Rightarrow> bool" where
  "less_score x y = (x \<le> y \<and> \<not> y \<le> (x::score))"

instance
proof
  fix x y z :: score
  show "(x < y) = (x \<le> y \<and> \<not> y \<le> x)"
    by (simp add: less_score_def)
  show "x \<le> x"
    by (cases x) simp_all
  show "x \<le> y \<Longrightarrow> y \<le> z \<Longrightarrow> x \<le> z"
    by (cases x; cases y; cases z) simp_all
  show "x \<le> y \<Longrightarrow> y \<le> x \<Longrightarrow> x = y"
    by (cases x; cases y) simp_all
  show "x \<le> y \<or> y \<le> x"
    by (cases x; cases y) auto
qed

end

section \<open>The standalone engine (class ChessEngine)\<close>

subsection \<open>Python list indexing\<close>

text \<open>
  The board is a list of rows, each a list of one-character strings. Python indexes
  a list of length \<open>n\<close> with \<open>0 \<le> i < n\<close> directly and with \<open>-n \<le> i < 0\<close> from the
  end; any other index raises \<open>IndexError\<close>. The only exception the engine can raise
  is this one, so a failing operation is the value \<open>None\<close>.
\<close>

definition py_index :: "nat \<Rightarrow> int \<Rightarrow> nat option" where
  "py_index n i =
     (if 0 \<le> i \<and> i < int n then Some (nat i)
      else if - int n \<le> i \<and> i < 0 then Some (nat (int n + i))
      else None)"

type_synonym pos = "int \<times> int"
type_synonym move = "pos \<times> pos"
type_synonym grid = "char list list"

text \<open>\<open>b[r][c]\<close> as an expression.\<close>

definition get_cell :: "grid \<Rightarrow> pos \<Rightarrow> char option" where
  "get_cell b p =
     (case py_index (length b) (fst p) of
        None \<Rightarrow> None
      | Some i \<Rightarrow>
          (case py_index (length (b ! i)) (snd p) of
             None \<Rightarrow> None
           | Some j \<Rightarrow> Some (b ! i ! j)))"

text \<open>\<open>b[r][c] = v\<close> as a statement; the rows of the board are distinct list objects.\<close>

definition set_cell :: "grid \<Rightarrow> pos \<Rightarrow> char \<Rightarrow> grid option" where
  "set_cell b p v =
     (case py_index (length b) (fst p) of
        None \<Rightarrow> None
      | Some i \<Rightarrow>
          (case py_index (length (b ! i)) (snd p) of
             None \<Rightarrow> None
           | Some j \<Rightarrow> Some (b[i := (b ! i)[j := v]])))"

subsection \<open>State and evaluation\<close>

record engine =
  board :: grid
  white_to_move :: bool

definition start_board :: grid where
  "start_board =
    [''rnbqkbnr'', ''pppppppp'', ''........'', ''........'',
     ''........'', ''........'', ''PPPPPPPP'', ''RNBQKBNR'']"

definition init_engine :: engine where
  "init_engine = \<lparr>board = start_board, white_to_move = True\<rparr>"

text \<open>The dictionary \<open>PIECE_VALUES\<close> of the standalone engine, with \<open>.get(piece, 0)\<close>.\<close>

definition CE_PIECE_VALUES :: "char \<rightharpoonup> int" where
  "CE_PIECE_VALUES =
    [CHR ''P'' \<mapsto> 100, CHR ''N'' \<mapsto> 320, CHR ''B'' \<mapsto> 330,
     CHR ''R'' \<mapsto> 500, CHR ''Q'' \<mapsto> 900, CHR ''K'' \<mapsto> 20000,
     CHR ''p'' \<mapsto> - 100, CHR ''n'' \<mapsto> - 320, CHR ''b'' \<mapsto> - 330,
     CHR ''r'' \<mapsto> - 500, CHR ''q'' \<mapsto> - 900, CHR ''k'' \<mapsto> - 20000]"

definition piece_value :: "char \<Rightarrow> int" where
  "piece_value piece = (case CE_PIECE_VALUES piece of None \<Rightarrow> 0 | Some v \<Rightarrow> v)"

definition evaluate :: "engine \<Rightarrow> int" where
  "evaluate s = sum_list (map (\<lambda>row. sum_list (map piece_value row)) (board s))"

subsection \<open>Move generation\<close>

text \<open>
  The cells are the one-character strings of the initial board and \<open>"."\<close>, all ASCII;
  on these \<open>str.isupper\<close> and \<open>str.upper\<close> are the ASCII ones.
\<close>

definition isupper :: "char \<Rightarrow> bool" where
  "isupper c = (65 \<le> (of_char c :: nat) \<and> (of_char c :: nat) \<le> 90)"

definition upper :: "char \<Rightarrow> char" where
  "upper c =
     (if 97 \<le> (of_char c :: nat) \<and> (of_char c :: nat) \<le> 122
      then char_of ((of_char c :: nat) - 32) else c)"

definition generate_piece_moves :: "engine \<Rightarrow> nat \<times> nat \<Rightarrow> char \<Rightarrow> move list option" where
  "generate_piece_moves s p piece =
     (let r = int (fst p); c = int (snd p) in
      if upper piece = CHR ''P'' then
        (let step = (if isupper piece then - 1 else 1);
             start_row = (if isupper piece then 6 else 1) in
         case get_cell (board s) (r + step, c) of
           None \<Rightarrow> None
         | Some x \<Rightarrow>
             if x = CHR ''.'' then
               (if r = start_row then
                  (case get_cell (board s) (r + 2 * step, c) of
                     None \<Rightarrow> None
                   | Some y \<Rightarrow>
                       if y = CHR ''.''
                       then Some [((r, c), (r + step, c)), ((r, c), (r + 2 * step, c))]
                       else Some [((r, c), (r + step, c))])
                else Some [((r, c), (r + step, c))])
             else Some [])
      else Some [])"

text \<open>The two nested \<open>enumerate\<close> loops of \<open>generate_legal_moves\<close>.\<close>

fun gen_row :: "engine \<Rightarrow> nat \<Rightarrow> nat \<Rightarrow> char list \<Rightarrow> move list option" where
  "gen_row s r c [] = Some []"
| "gen_row s r c (piece # rest) =
     (case (if (isupper piece = white_to_move s) \<and> piece \<noteq> CHR ''.''
            then generate_piece_moves s (r, c) piece else Some []) of
        None \<Rightarrow> None
      | Some ms \<Rightarrow>
          (case gen_row s r (Suc c) rest of
             None \<Rightarrow> None
           | Some ms' \<Rightarrow> Some (ms @ ms')))"

fun gen_rows :: "engine \<Rightarrow> nat \<Rightarrow> grid \<Rightarrow> move list option" where
  "gen_rows s r [] = Some []"
| "gen_rows s r (row # rows) =
     (case gen_row s r 0 row of
        None \<Rightarrow> None
      | Some ms \<Rightarrow>
          (case gen_rows s (Suc r) rows of
             None \<Rightarrow> None
           | Some ms' \<Rightarrow> Some (ms @ ms')))"

definition generate_legal_moves :: "engine \<Rightarrow> move list option" where
  "generate_legal_moves s = gen_rows s 0 (board s)"

subsection \<open>Making and undoing a move\<close>

definition make_move :: "engine \<Rightarrow> move \<Rightarrow> engine option" where
  "make_move s m =
     (case get_cell (board s) (fst m) of
        None \<Rightarrow> None
      | Some piece \<Rightarrow>
          (case set_cell (board s) (snd m) piece of
             None \<Rightarrow> None
           | Some b1 \<Rightarrow>
               (case set_cell b1 (fst m) (CHR ''.'') of
                  None \<Rightarrow> None
                | Some b2 \<Rightarrow> Some \<lparr>board = b2, white_to_move = \<not> white_to_move s\<rparr>)))"

definition undo_move :: "engine \<Rightarrow> move \<Rightarrow> char \<Rightarrow> engine option" where
  "undo_move s m captured_piece =
     (case get_cell (board s) (snd m) of
        None \<Rightarrow> None
      | Some piece \<Rightarrow>
          (case set_cell (board s) (fst m) piece of
             None \<Rightarrow> None
           | Some b1 \<Rightarrow>
               (case set_cell b1 (snd m) captured_piece of
                  None \<Rightarrow> None
                | Some b2 \<Rightarrow> Some \<lparr>board = b2, white_to_move = \<not> white_to_move s\<rparr>)))"

subsection \<open>Alpha-beta search\<close>

text \<open>
  \<open>alpha_beta\<close> works on the engine's own board: it makes a move, recurses, and undoes
  the move. The model threads the engine state through every call and returns it with
  the result \<open>(score, best_move)\<close>; \<open>None\<close> is an \<open>IndexError\<close> escaping the search. The
  depth only counts down to the test \<open>depth == 0\<close>, and the callers pass a
  non-negative depth, so it is a natural number. The two \<open>for\<close> loops are \<open>max_loop\<close>
  and \<open>min_loop\<close>, over the moves still to be tried, with the loop variables
  \<open>alpha\<close>/\<open>beta\<close>, \<open>max_eval\<close>/\<open>min_eval\<close> and \<open>best_move\<close>; their first argument
  \<open>search\<close> is the recursive call \<open>self.alpha_beta(depth - 1, _, _, _)\<close>.
\<close>

type_synonym result = "(engine \<times> score \<times> move option) option"

fun max_loop :: "(engine \<Rightarrow> score \<Rightarrow> score \<Rightarrow> bool \<Rightarrow> result) \<Rightarrow> move list \<Rightarrow> engine
                   \<Rightarrow> score \<Rightarrow> score \<Rightarrow> score \<Rightarrow> move option \<Rightarrow> result" where
  "max_loop search [] s alpha beta max_eval best_move = Some (s, max_eval, best_move)"
| "max_loop search (m # ms) s alpha beta max_eval best_move =
     (case get_cell (board s) (snd m) of
        None \<Rightarrow> None
      | Some captured_piece \<Rightarrow>
          (case make_move s m of
             None \<Rightarrow> None
           | Some s1 \<Rightarrow>
               (case search s1 alpha beta False of
                  None \<Rightarrow> None
                | Some (s2, eval, _) \<Rightarrow>
                    (case undo_move s2 m captured_piece of
                       None \<Rightarrow> None
                     | Some s3 \<Rightarrow>
                         (let max_eval' = (if eval > max_eval then eval else max_eval);
                              best_move' = (if eval > max_eval then Some m else best_move);
                              alpha' = max alpha eval
                          in if beta \<le> alpha' then Some (s3, max_eval', best_move')
                             else max_loop search ms s3 alpha' beta max_eval' best_move')))))"

fun min_loop :: "(engine \<Rightarrow> score \<Rightarrow> score \<Rightarrow> bool \<Rightarrow> result) \<Rightarrow> move list \<Rightarrow> engine
                   \<Rightarrow> score \<Rightarrow> score \<Rightarrow> score \<Rightarrow> move option \<Rightarrow> result" where
  "min_loop search [] s alpha beta min_eval best_move = Some (s, min_eval, best_move)"
| "min_loop search (m # ms) s alpha beta min_eval best_move =
     (case get_cell (board s) (snd m) of
        None \<Rightarrow> None
      | Some captured_piece \<Rightarrow>
          (case make_move s m of
             None \<Rightarrow> None
           | Some s1 \<Rightarrow>
               (case search s1 alpha beta True of
                  None \<Rightarrow> None
                | Some (s2, eval, _) \<Rightarrow>
                    (case undo_move s2 m captured_piece of
                       None \<Rightarrow> None
                     | Some s3 \<Rightarrow>
                         (let min_eval' = (if eval < min_eval then eval else min_eval);
                              best_move' = (if eval < min_eval then Some m else best_move);
                              beta' = min beta eval
                          in if beta' \<le> alpha then Some (s3, min_eval', best_move')
                             else min_loop search ms s3 alpha beta' min_eval' best_move')))))"

primrec alpha_beta :: "nat \<Rightarrow> engine \<Rightarrow> score \<Rightarrow> score \<Rightarrow> bool \<Rightarrow> result" where
  "alpha_beta 0 s alpha beta maximizing_player = Some (s, Fin (evaluate s), None)"
| "alpha_beta (Suc d) s alpha beta maximizing_player =
     (case generate_legal_moves s of
        None \<Rightarrow> None
      | Some legal_moves \<Rightarrow>
          if legal_moves = [] then
            Some (s, if maximizing_player then NegInf else PosInf, None)
          else if maximizing_player
          then max_loop (alpha_beta d) legal_moves s alpha beta NegInf None
          else min_loop (alpha_beta d) legal_moves s alpha beta PosInf None)"

definition CE_get_best_move :: "engine \<Rightarrow> nat \<Rightarrow> (engine \<times> move option) option" where
  "CE_get_best_move s depth =
     (case alpha_beta depth s NegInf PosInf True of
        None \<Rightarrow> None
      | Some (s', _, best_move) \<Rightarrow> Some (s', best_move))"

subsection \<open>The standalone search with pruning disabled\<close>

text \<open>
  The search that the specification compares \<open>alpha_beta\<close> with: the same search
  without the window and without the cutoff, so that every legal move of every node
  down to the depth is searched. It returns the engine state and the score.
\<close>

fun full_max_loop :: "(engine \<Rightarrow> bool \<Rightarrow> (engine \<times> score) option) \<Rightarrow> move list \<Rightarrow> engine
                        \<Rightarrow> score \<Rightarrow> (engine \<times> score) option" where
  "full_max_loop search [] s max_eval = Some (s, max_eval)"
| "full_max_loop search (m # ms) s max_eval =
     (case get_cell (board s) (snd m) of
        None \<Rightarrow> None
      | Some captured_piece \<Rightarrow>
          (case make_move s m of
             None \<Rightarrow> None
           | Some s1 \<Rightarrow>
               (case search s1 False of
                  None \<Rightarrow> None
                | Some (s2, eval) \<Rightarrow>
                    (case undo_move s2 m captured_piece of
                       None \<Rightarrow> None
                     | Some s3 \<Rightarrow>
                         full_max_loop search ms s3
                           (if eval > max_eval then eval else max_eval)))))"

fun full_min_loop :: "(engine \<Rightarrow> bool \<Rightarrow> (engine \<times> score) option) \<Rightarrow> move list \<Rightarrow> engine
                        \<Rightarrow> score \<Rightarrow> (engine \<times> score) option" where
  "full_min_loop search [] s min_eval = Some (s, min_eval)"
| "full_min_loop search (m # ms) s min_eval =
     (case get_cell (board s) (snd m) of
        None \<Rightarrow> None
      | Some captured_piece \<Rightarrow>
          (case make_move s m of
             None \<Rightarrow> None
           | Some s1 \<Rightarrow>
               (case search s1 True of
                  None \<Rightarrow> None
                | Some (s2, eval) \<Rightarrow>
                    (case undo_move s2 m captured_piece of
                       None \<Rightarrow> None
                     | Some s3 \<Rightarrow>
                         full_min_loop search ms s3
                           (if eval < min_eval then eval else min_eval)))))"

primrec alpha_beta_no_pruning :: "nat \<Rightarrow> engine \<Rightarrow> bool \<Rightarrow> (engine \<times> score) option" where
  "alpha_beta_no_pruning 0 s maximizing_player = Some (s, Fin (evaluate s))"
| "alpha_beta_no_pruning (Suc d) s maximizing_player =
     (case generate_legal_moves s of
        None \<Rightarrow> None
      | Some legal_moves \<Rightarrow>
          if legal_moves = [] then Some (s, if maximizing_player then NegInf else PosInf)
          else if maximizing_player
          then full_max_loop (alpha_beta_no_pruning d) legal_moves s NegInf
          else full_min_loop (alpha_beta_no_pruning d) legal_moves s PosInf)"

text \<open>
  How the score \<open>r\<close> that a search returns under the window \<open>(alpha, beta)\<close> is tied to
  the score \<open>v\<close> of the full search: equal inside the window, and on the same side of
  the window, no farther out than \<open>v\<close>, outside it.
\<close>

definition window_bound :: "score \<Rightarrow> score \<Rightarrow> score \<Rightarrow> score \<Rightarrow> bool" where
  "window_bound alpha beta v r =
     ((if v \<le> alpha then v \<le> r \<and> r \<le> alpha
       else if beta \<le> v then beta \<le> r \<and> r \<le> v
       else r = v))"

text \<open>
  The moves of a node with their scores: the score of a move is the score that the
  full search gives to the position after the move.
\<close>

fun move_scores :: "(engine \<Rightarrow> bool \<Rightarrow> (engine \<times> score) option) \<Rightarrow> bool \<Rightarrow> move list \<Rightarrow> engine
                      \<Rightarrow> (move \<times> score) list option" where
  "move_scores search mx [] s = Some []"
| "move_scores search mx (m # ms) s =
     (case make_move s m of
        None \<Rightarrow> None
      | Some s1 \<Rightarrow>
          (case search s1 mx of
             None \<Rightarrow> None
           | Some (_, c) \<Rightarrow>
               (case move_scores search mx ms s of
                  None \<Rightarrow> None
                | Some fs \<Rightarrow> Some ((m, c) # fs))))"

section \<open>The python-chess engine (class AiymaChessZero)\<close>

subsection \<open>The board interface\<close>

text \<open>
  \<open>AiymaChessZero\<close> works on a \<open>chess.Board\<close> of the python-chess library, which is
  not part of the repository. The operations of the board that the engine calls are
  a parameter of the model: a record of functions on a board type \<open>'b\<close> with moves
  \<open>'m\<close>. \<open>push\<close> and \<open>pop\<close> mutate the board; here they return the new board.
\<close>

datatype piece_type = PAWN | KNIGHT | BISHOP | ROOK | QUEEN | KING

record chess_piece =
  piece_type :: piece_type
  color :: bool

record ('b, 'm) board_api =
  legal_moves :: "'b \<Rightarrow> 'm list"
  push :: "'b \<Rightarrow> 'm \<Rightarrow> 'b"
  pop :: "'b \<Rightarrow> 'b"
  is_checkmate :: "'b \<Rightarrow> bool"
  is_stalemate :: "'b \<Rightarrow> bool"
  is_insufficient_material :: "'b \<Rightarrow> bool"
  is_game_over :: "'b \<Rightarrow> bool"
  turn :: "'b \<Rightarrow> bool"
  piece_at :: "'b \<Rightarrow> nat \<Rightarrow> chess_piece option"
  fen :: "'b \<Rightarrow> string"

subsection \<open>Evaluation\<close>

fun PIECE_VALUES :: "piece_type \<Rightarrow> int" where
  "PIECE_VALUES PAWN = 100"
| "PIECE_VALUES KNIGHT = 320"
| "PIECE_VALUES BISHOP = 330"
| "PIECE_VALUES ROOK = 500"
| "PIECE_VALUES QUEEN = 900"
| "PIECE_VALUES KING = 20000"

definition PAWN_TABLE :: "int list" where
  "PAWN_TABLE =
    [0, 5, 5, 0, 5, 10, 50, 0,
     0, 10, - 5, 0, 5, 10, 50, 0,
     0, 5, 5, 10, 20, 30, 50, 0,
     5, 5, 10, 25, 35, 40, 50, 0,
     5, 5, 10, 25, 35, 40, 50, 0,
     0, 5, 5, 10, 20, 30, 50, 0,
     0, 10, - 5, 0, 5, 10, 50, 0,
     0, 5, 5, 0, 5, 10, 50, 0]"

definition KNIGHT_TABLE :: "int list" where
  "KNIGHT_TABLE =
    [- 50, - 40, - 30, - 30, - 30, - 30, - 40, - 50,
     - 40, - 20, 0, 0, 0, 0, - 20, - 40,
     - 30, 0, 10, 15, 15, 10, 0, - 30,
     - 30, 5, 15, 20, 20, 15, 5, - 30,
     - 30, 0, 15, 20, 20, 15, 0, - 30,
     - 30, 5, 10, 15, 15, 10, 5, - 30,
     - 40, - 20, 0, 5, 5, 0, - 20, - 40,
     - 50, - 40, - 30, - 30, - 30, - 30, - 40, - 50]"

definition BISHOP_TABLE :: "int list" where
  "BISHOP_TABLE =
    [- 20, - 10, - 10, - 10, - 10, - 10, - 10, - 20,
     - 10, 0, 0, 0, 0, 0, 0, - 10,
     - 10, 0, 5, 10, 10, 5, 0, - 10,
     - 10, 5, 5, 10, 10, 5, 5, - 10,
     - 10, 0, 10, 10, 10, 10, 0, - 10,
     - 10, 10, 10, 10, 10, 10, 10, - 10,
     - 10, 5, 0, 0, 0, 0, 5, - 10,
     - 20, - 10, - 10, - 10, - 10, - 10, - 10, - 20]"

text \<open>The dictionary \<open>PIECE_SQUARE_TABLES\<close>: three keys.\<close>

fun PIECE_SQUARE_TABLES :: "piece_type \<rightharpoonup> int list" where
  "PIECE_SQUARE_TABLES PAWN = Some PAWN_TABLE"
| "PIECE_SQUARE_TABLES KNIGHT = Some KNIGHT_TABLE"
| "PIECE_SQUARE_TABLES BISHOP = Some BISHOP_TABLE"
| "PIECE_SQUARE_TABLES _ = None"

text \<open>\<open>PIECE_SQUARE_TABLES.get(piece_type, [0] * 64)[square]\<close>, for a square below 64.\<close>

definition pst_value :: "piece_type \<Rightarrow> nat \<Rightarrow> int" where
  "pst_value pt square =
     (case PIECE_SQUARE_TABLES pt of None \<Rightarrow> replicate 64 0 | Some t \<Rightarrow> t) ! square"

text \<open>What one square adds to \<open>eval_score\<close> in the loop over \<open>chess.SQUARES\<close>.\<close>

definition square_score :: "('b, 'm) board_api \<Rightarrow> 'b \<Rightarrow> nat \<Rightarrow> int" where
  "square_score api b square =
     (case piece_at api b square of
        None \<Rightarrow> 0
      | Some piece \<Rightarrow>
          (let v = PIECE_VALUES (piece_type piece);
               pst = pst_value (piece_type piece) square
           in if color piece = turn api b then v + pst else - (v + pst)))"

definition evaluate_board :: "('b, 'm) board_api \<Rightarrow> 'b \<Rightarrow> score" where
  "evaluate_board api b =
     (if is_checkmate api b then (if turn api b then NegInf else PosInf)
      else if is_stalemate api b \<or> is_insufficient_material api b then Fin 0
      else Fin (sum_list (map (square_score api b) [0..<64])))"

subsection \<open>Search with the transposition table\<close>

text \<open>
  The transposition table is a dictionary from \<open>(board.fen(), depth)\<close> to a score. The
  model threads the table and the board through every call; a call returns the score,
  the table and the board as it leaves them. The lock only guards single accesses to
  the table and has no effect on a sequential run. As in the standalone engine the
  depth is a natural number and the first argument of a loop is the recursive call.
\<close>

type_synonym ttable = "string \<times> nat \<rightharpoonup> score"

type_synonym 'b search = "'b \<Rightarrow> ttable \<Rightarrow> score \<Rightarrow> score \<Rightarrow> bool \<Rightarrow> score \<times> ttable \<times> 'b"

fun minimax_max_loop :: "('b, 'm) board_api \<Rightarrow> 'b search \<Rightarrow> 'm list \<Rightarrow> 'b \<Rightarrow> ttable
                           \<Rightarrow> score \<Rightarrow> score \<Rightarrow> score \<Rightarrow> score \<times> ttable \<times> 'b" where
  "minimax_max_loop api search [] b tt alpha beta max_eval = (max_eval, tt, b)"
| "minimax_max_loop api search (m # ms) b tt alpha beta max_eval =
     (case search (push api b m) tt alpha beta False of
        (eval, tt1, b1) \<Rightarrow>
          (let b2 = pop api b1;
               max_eval' = max max_eval eval;
               alpha' = max alpha eval
           in if beta \<le> alpha' then (max_eval', tt1, b2)
              else minimax_max_loop api search ms b2 tt1 alpha' beta max_eval'))"

fun minimax_min_loop :: "('b, 'm) board_api \<Rightarrow> 'b search \<Rightarrow> 'm list \<Rightarrow> 'b \<Rightarrow> ttable
                           \<Rightarrow> score \<Rightarrow> score \<Rightarrow> score \<Rightarrow> score \<times> ttable \<times> 'b" where
  "minimax_min_loop api search [] b tt alpha beta min_eval = (min_eval, tt, b)"
| "minimax_min_loop api search (m # ms) b tt alpha beta min_eval =
     (case search (push api b m) tt alpha beta True of
        (eval, tt1, b1) \<Rightarrow>
          (let b2 = pop api b1;
               min_eval' = min min_eval eval;
               beta' = min beta eval
           in if beta' \<le> alpha then (min_eval', tt1, b2)
              else minimax_min_loop api search ms b2 tt1 alpha beta' min_eval'))"

text \<open>The part of \<open>minimax\<close> after a miss in the table, for a depth that is not 0.\<close>

definition minimax_node :: "('b, 'm) board_api \<Rightarrow> 'b search \<Rightarrow> string \<times> nat \<Rightarrow> 'b \<Rightarrow> ttable
                              \<Rightarrow> score \<Rightarrow> score \<Rightarrow> bool \<Rightarrow> score \<times> ttable \<times> 'b" where
  "minimax_node api search key b tt alpha beta maximizing_player =
     (if is_game_over api b then
        (let score = evaluate_board api b in (score, tt(key \<mapsto> score), b))
      else if maximizing_player then
        (case minimax_max_loop api search (legal_moves api b) b tt alpha beta NegInf of
           (max_eval, tt', b') \<Rightarrow> (max_eval, tt'(key \<mapsto> max_eval), b'))
      else
        (case minimax_min_loop api search (legal_moves api b) b tt alpha beta PosInf of
           (min_eval, tt', b') \<Rightarrow> (min_eval, tt'(key \<mapsto> min_eval), b')))"

primrec minimax :: "('b, 'm) board_api \<Rightarrow> nat \<Rightarrow> 'b search" where
  "minimax api 0 b tt alpha beta maximizing_player =
     (case tt (fen api b, 0) of
        Some cached \<Rightarrow> (cached, tt, b)
      | None \<Rightarrow>
          (let score = evaluate_board api b in (score, tt((fen api b, 0) \<mapsto> score), b)))"
| "minimax api (Suc d) b tt alpha beta maximizing_player =
     (case tt (fen api b, Suc d) of
        Some cached \<Rightarrow> (cached, tt, b)
      | None \<Rightarrow>
          minimax_node api (minimax api d) (fen api b, Suc d) b tt alpha beta maximizing_player)"

subsection \<open>The root\<close>

text \<open>
  \<open>get_best_move\<close> creates a pool of \<open>self.threads\<close> worker threads, which raises
  \<open>ValueError\<close> when that number is not positive. For each legal move it pushes the
  move on the board, submits the task \<open>minimax(board, self.depth - 1, -inf, inf, False)\<close>
  to the pool and pops the move; then it reads the results of the tasks in the order
  of submission and keeps a move whose result is greater than every result before
  it.

  Every task is given the one board object. The main thread goes on pushing and
  popping it while the workers run, and the workers push and pop it themselves, so
  the position a task searches, the score it returns and what it stores in the table
  depend on how the threads interleave. The model takes the outcome of the pool as a
  parameter: \<open>pool\<close> gives, for the moves submitted, the board and the table, the
  results of the tasks in the order of submission together with the table and the
  board that the tasks leave. When no move is legal nothing is submitted, and the
  table and the board stay as they are.
\<close>

datatype py_error = ValueError

type_synonym ('b, 'm) pool = "'m list \<Rightarrow> 'b \<Rightarrow> ttable \<Rightarrow> score list \<times> ttable \<times> 'b"

text \<open>The loop over \<open>futures\<close>, with the loop variables \<open>best_eval\<close> and \<open>best_move\<close>.\<close>

fun select_best :: "('m \<times> score) list \<Rightarrow> score \<Rightarrow> 'm option \<Rightarrow> 'm option" where
  "select_best [] best_eval best_move = best_move"
| "select_best ((m, eval) # futures) best_eval best_move =
     (if eval > best_eval then select_best futures eval (Some m)
      else select_best futures best_eval best_move)"

definition get_best_move :: "('b, 'm) board_api \<Rightarrow> int \<Rightarrow> ('b, 'm) pool \<Rightarrow> 'b \<Rightarrow> ttable
                               \<Rightarrow> py_error + ('m option \<times> ttable \<times> 'b)" where
  "get_best_move api threads pool b tt =
     (if threads \<le> 0 then Inl ValueError
      else
        (case legal_moves api b of
           [] \<Rightarrow> Inr (None, tt, b)
         | m # ms \<Rightarrow>
             (case pool (m # ms) b tt of
                (evals, tt', b') \<Rightarrow>
                  Inr (select_best (zip (m # ms) evals) NegInf None, tt', b'))))"

subsection \<open>The searches that the specification compares with\<close>

text \<open>
  The specification compares \<open>minimax\<close> with the same search run with the
  transposition table disabled, and with the same search run with pruning disabled.
  \<open>minimax_no_cache\<close> is \<open>minimax\<close> without the probes and stores of the table;
  \<open>minimax_no_pruning\<close> is \<open>minimax\<close> without the window and its cutoff.
\<close>

fun no_cache_max_loop :: "('b, 'm) board_api \<Rightarrow> ('b \<Rightarrow> score \<Rightarrow> score \<Rightarrow> bool \<Rightarrow> score \<times> 'b)
                            \<Rightarrow> 'm list \<Rightarrow> 'b \<Rightarrow> score \<Rightarrow> score \<Rightarrow> score \<Rightarrow> score \<times> 'b" where
  "no_cache_max_loop api search [] b alpha beta max_eval = (max_eval, b)"
| "no_cache_max_loop api search (m # ms) b alpha beta max_eval =
     (case search (push api b m) alpha beta False of
        (eval, b1) \<Rightarrow>
          (let b2 = pop api b1;
               max_eval' = max max_eval eval;
               alpha' = max alpha eval
           in if beta \<le> alpha' then (max_eval', b2)
              else no_cache_max_loop api search ms b2 alpha' beta max_eval'))"

fun no_cache_min_loop :: "('b, 'm) board_api \<Rightarrow> ('b \<Rightarrow> score \<Rightarrow> score \<Rightarrow> bool \<Rightarrow> score \<times> 'b)
                            \<Rightarrow> 'm list \<Rightarrow> 'b \<Rightarrow> score \<Rightarrow> score \<Rightarrow> score \<Rightarrow> score \<times> 'b" where
  "no_cache_min_loop api search [] b alpha beta min_eval = (min_eval, b)"
| "no_cache_min_loop api search (m # ms) b alpha beta min_eval =
     (case search (push api b m) alpha beta True of
        (eval, b1) \<Rightarrow>
          (let b2 = pop api b1;
               min_eval' = min min_eval eval;
               beta' = min beta eval
           in if beta' \<le> alpha then (min_eval', b2)
              else no_cache_min_loop api search ms b2 alpha beta' min_eval'))"

primrec minimax_no_cache :: "('b, 'm) board_api \<Rightarrow> nat \<Rightarrow> 'b \<Rightarrow> score \<Rightarrow> score \<Rightarrow> bool
                               \<Rightarrow> score \<times> 'b" where
  "minimax_no_cache api 0 b alpha beta maximizing_player = (evaluate_board api b, b)"
| "minimax_no_cache api (Suc d) b alpha beta maximizing_player =
     (if is_game_over api b then (evaluate_board api b, b)
      else if maximizing_player
      then no_cache_max_loop api (minimax_no_cache api d) (legal_moves api b) b alpha beta NegInf
      else no_cache_min_loop api (minimax_no_cache api d) (legal_moves api b) b alpha beta PosInf)"

fun no_pruning_max_loop :: "('b, 'm) board_api \<Rightarrow> ('b \<Rightarrow> ttable \<Rightarrow> bool \<Rightarrow> score \<times> ttable \<times> 'b)
                              \<Rightarrow> 'm list \<Rightarrow> 'b \<Rightarrow> ttable \<Rightarrow> score \<Rightarrow> score \<times> ttable \<times> 'b" where
  "no_pruning_max_loop api search [] b tt max_eval = (max_eval, tt, b)"
| "no_pruning_max_loop api search (m # ms) b tt max_eval =
     (case search (push api b m) tt False of
        (eval, tt1, b1) \<Rightarrow>
          no_pruning_max_loop api search ms (pop api b1) tt1 (max max_eval eval))"

fun no_pruning_min_loop :: "('b, 'm) board_api \<Rightarrow> ('b \<Rightarrow> ttable \<Rightarrow> bool \<Rightarrow> score \<times> ttable \<times> 'b)
                              \<Rightarrow> 'm list \<Rightarrow> 'b \<Rightarrow> ttable \<Rightarrow> score \<Rightarrow> score \<times> ttable \<times> 'b" where
  "no_pruning_min_loop api search [] b tt min_eval = (min_eval, tt, b)"
| "no_pruning_min_loop api search (m # ms) b tt min_eval =
     (case search (push api b m) tt True of
        (eval, tt1, b1) \<Rightarrow>
          no_pruning_min_loop api search ms (pop api b1) tt1 (min min_eval eval))"

primrec minimax_no_pruning :: "('b, 'm) board_api \<Rightarrow> nat \<Rightarrow> 'b \<Rightarrow> ttable \<Rightarrow> bool
                                 \<Rightarrow> score \<times> ttable \<times> 'b" where
  "minimax_no_pruning api 0 b tt maximizing_player =
     (case tt (fen api b, 0) of
        Some cached \<Rightarrow> (cached, tt, b)
      | None \<Rightarrow>
          (let score = evaluate_board api b in (score, tt((fen api b, 0) \<mapsto> score), b)))"
| "minimax_no_pruning api (Suc d) b tt maximizing_player =
     (case tt (fen api b, Suc d) of
        Some cached \<Rightarrow> (cached, tt, b)
      | None \<Rightarrow>
          if is_game_over api b then
            (let score = evaluate_board api b in (score, tt((fen api b, Suc d) \<mapsto> score), b))
          else if maximizing_player then
            (case no_pruning_max_loop api (minimax_no_pruning api d) (legal_moves api b) b tt NegInf of
               (max_eval, tt', b') \<Rightarrow> (max_eval, tt'((fen api b, Suc d) \<mapsto> max_eval), b'))
          else
            (case no_pruning_min_loop api (minimax_no_pruning api d) (legal_moves api b) b tt PosInf of
               (min_eval, tt', b') \<Rightarrow> (min_eval, tt'((fen api b, Suc d) \<mapsto> min_eval), b')))"

subsection \<open>A small game behind the board interface\<close>

text \<open>
  The search uses the board only through the interface, so a finite game given by
  tables is an instance of it. A board is the current position and the stack of the
  positions before it; a move is the position it leads to. Position 5 is reached
  from position 1 and from position 2 (a transposition). Positions 7 to 10 are
  leaves of a search of depth 3 from position 0, each with one black pawn next to
  the two kings; position 11 is a stalemate, 13 and 14 are checkmates (Black and
  White to move), and position 15 has a white rook. From position 16 White's only
  move leads to position 17, where Black's only move mates White (position 14).
\<close>

type_synonym toy_board = "nat \<times> nat list"

definition toy_succ :: "nat \<Rightarrow> nat list" where
  "toy_succ p =
     (if p = 0 then [1, 2, 3] else if p = 1 then [4, 5] else if p = 2 then [5]
      else if p = 3 then [6] else if p = 4 then [7] else if p = 5 then [8, 9]
      else if p = 6 then [10] else if p = 7 \<or> p = 8 \<or> p = 9 \<or> p = 10 then [11]
      else if p = 15 then [11]
      else if p = 16 then [17] else if p = 17 then [14] else [])"

definition toy_white :: "nat \<Rightarrow> bool" where
  "toy_white p =
     (p = 0 \<or> p = 4 \<or> p = 5 \<or> p = 6 \<or> p = 11 \<or> p = 14 \<or> p = 15 \<or> p = 16)"

definition toy_piece_at :: "nat \<Rightarrow> nat \<Rightarrow> chess_piece option" where
  "toy_piece_at p square =
     (if square = 4 then Some \<lparr>piece_type = KING, color = True\<rparr>
      else if square = 60 then Some \<lparr>piece_type = KING, color = False\<rparr>
      else if (p = 7 \<and> square = 8) \<or> (p = 8 \<and> square = 17)
              \<or> (p = 9 \<and> square = 14) \<or> (p = 10 \<and> square = 9)
      then Some \<lparr>piece_type = PAWN, color = False\<rparr>
      else if p = 15 \<and> square = 27 then Some \<lparr>piece_type = ROOK, color = True\<rparr>
      else None)"

definition toy_fen :: "nat \<Rightarrow> string" where
  "toy_fen p = replicate p (CHR ''x'')"

definition toy_api :: "(toy_board, nat) board_api" where
  "toy_api =
    \<lparr>legal_moves = (\<lambda>b. toy_succ (fst b)),
     push = (\<lambda>b m. (m, fst b # snd b)),
     pop = (\<lambda>b. case snd b of [] \<Rightarrow> b | p # st \<Rightarrow> (p, st)),
     is_checkmate = (\<lambda>b. fst b = 13 \<or> fst b = 14),
     is_stalemate = (\<lambda>b. fst b = 11),
     is_insufficient_material = (\<lambda>b. False),
     is_game_over = (\<lambda>b. fst b = 11 \<or> fst b = 13 \<or> fst b = 14),
     turn = (\<lambda>b. toy_white (fst b)),
     piece_at = (\<lambda>b. toy_piece_at (fst b)),
     fen = (\<lambda>b. toy_fen (fst b))\<rparr>"

text \<open>
  A board of the standalone engine on which White's only move leaves White without a
  move after any reply: a white pawn on row 2 below a black rook, and a black pawn on
  its start row.
\<close>

definition blocked_board :: engine where
  "blocked_board =
    \<lparr>board = [''r.......'', ''.......p'', ''P.......'', ''........'',
              ''........'', ''........'', ''........'', ''........''],
     white_to_move = True\<rparr>"

text \<open>The initial board after the white pawn on column 4 has advanced two rows.\<close>

definition e4_engine :: engine where
  "e4_engine =
    \<lparr>board = [''rnbqkbnr'', ''pppppppp'', ''........'', ''........'',
              ''....P...'', ''........'', ''PPPP.PPP'', ''RNBQKBNR''],
     white_to_move = False\<rparr>"

subsection \<open>Pawn pushes and search paths of the standalone engine\<close>

text \<open>
  A pawn push on a board: both squares of the move are on the board at non-negative
  indices, the first holds a pawn of the side to move, the second is empty and on
  the same column, one row forward, or two rows forward from the start row over an
  empty square. Forward is towards row 0 for White and away from it for Black.
\<close>

definition is_pawn_push :: "engine \<Rightarrow> move \<Rightarrow> bool" where
  "is_pawn_push s m =
     (case m of ((r, c), (r', c')) \<Rightarrow>
        (case get_cell (board s) (r, c) of
           None \<Rightarrow> False
         | Some piece \<Rightarrow>
             0 \<le> r \<and> 0 \<le> c \<and> 0 \<le> r'
             \<and> (piece = CHR ''P'' \<or> piece = CHR ''p'')
             \<and> (piece = CHR ''P'') = white_to_move s
             \<and> c' = c
             \<and> (let step = (if piece = CHR ''P'' then - 1 else 1);
                     start_row = (if piece = CHR ''P'' then 6 else 1)
                 in r' = r + step
                    \<or> (r = start_row \<and> r' = r + 2 * step
                        \<and> get_cell (board s) (r + step, c) = Some (CHR ''.'')))
             \<and> get_cell (board s) (r', c') = Some (CHR ''.'')))"

text \<open>The pieces on the board, as a multiset.\<close>

definition pieces :: "engine \<Rightarrow> char multiset" where
  "pieces s = filter_mset (\<lambda>x. x \<noteq> CHR ''.'') (mset (concat (board s)))"

text \<open>
  A search path: the search only ever makes a move that \<open>generate_legal_moves\<close> has
  returned for the state it is in.
\<close>

fun follow_path :: "engine \<Rightarrow> move list \<Rightarrow> engine option" where
  "follow_path s [] = Some s"
| "follow_path s (m # ms) =
     (case generate_legal_moves s of
        None \<Rightarrow> None
      | Some legal \<Rightarrow>
          if m \<in> set legal then
            (case make_move s m of
               None \<Rightarrow> None
             | Some s' \<Rightarrow> follow_path s' ms)
          else None)"

text \<open>
  The moves \<open>a2a8 h7h6 a1a3 h6h5\<close> of a \<open>position startpos moves\<close> command, as
  \<open>uci_to_move\<close> converts them; \<open>handle_position\<close> makes them one after the other
  without checking them.
\<close>

definition setup_moves :: "move list" where
  "setup_moves = [((6, 0), (0, 0)), ((1, 7), (2, 7)), ((7, 0), (5, 0)), ((2, 7), (3, 7))]"

fun make_moves :: "engine \<Rightarrow> move list \<Rightarrow> engine option" where
  "make_moves s [] = Some s"
| "make_moves s (m # ms) =
     (case make_move s m of None \<Rightarrow> None | Some s' \<Rightarrow> make_moves s' ms)"

text \<open>
  The board after these moves: a white pawn on row 0 and an empty square at the
  other end of its column, White to move. \<open>wrapped_board\<close> is that board after the
  pawn has gone from row 0 to the last row.
\<close>

definition wrap_board :: engine where
  "wrap_board =
    \<lparr>board = [''Pnbqkbnr'', ''ppppppp.'', ''........'', ''.......p'',
              ''........'', ''R.......'', ''.PPPPPPP'', ''.NBQKBNR''],
     white_to_move = True\<rparr>"

definition wrapped_board :: engine where
  "wrapped_board =
    \<lparr>board = [''.nbqkbnr'', ''ppppppp.'', ''........'', ''.......p'',
              ''........'', ''R.......'', ''.PPPPPPP'', ''PNBQKBNR''],
     white_to_move = False\<rparr>"

section \<open>Properties\<close>

subsection \<open>Order on scores\<close>

lemma score_less_simps [simp]:
  "NegInf < Fin x" "Fin x < PosInf" "NegInf < PosInf"
  "(Fin x < Fin y) = (x < y)"
  "\<not> s < NegInf" "\<not> PosInf < s"
  by (cases s; auto simp: less_score_def)+

lemma score_le_simps [simp]:
  "(s \<le> NegInf) = (s = NegInf)" "(PosInf \<le> s) = (s = PosInf)"
  "NegInf \<le> s" "s \<le> PosInf"
  by (cases s; simp)+

subsection \<open>Making and undoing a move\<close>

lemma py_index_lt: "py_index n i = Some k \<Longrightarrow> k < n"
  by (auto simp: py_index_def split: if_splits)

lemma upd2_restore:
  fixes d :: char
  assumes "i < length b" "j < length (b ! i)" "i' < length b" "j' < length (b ! i')"
  defines "b1 \<equiv> b[i' := (b ! i')[j' := b ! i ! j]]"
  defines "b2 \<equiv> b1[i := (b1 ! i)[j := d]]"
  defines "b3 \<equiv> b2[i := (b2 ! i)[j := b2 ! i' ! j']]"
  shows "b3[i' := (b3 ! i')[j' := b ! i' ! j']] = b"
  using assms
  by (auto simp: list_eq_iff_nth_eq nth_list_update)

lemma undo_after_make:
  assumes mk: "make_move s m = Some s'"
    and cap: "get_cell (board s) (snd m) = Some captured_piece"
  shows "undo_move s' m captured_piece = Some s"
proof -
  obtain i j where ij: "py_index (length (board s)) (fst (fst m)) = Some i"
      "py_index (length (board s ! i)) (snd (fst m)) = Some j"
    using mk by (auto simp: make_move_def get_cell_def split: option.splits)
  obtain i' j' where ij': "py_index (length (board s)) (fst (snd m)) = Some i'"
      "py_index (length (board s ! i')) (snd (snd m)) = Some j'"
      and c: "captured_piece = board s ! i' ! j'"
    using cap by (auto simp: get_cell_def split: option.splits)
  have lt: "i < length (board s)" "j < length (board s ! i)"
           "i' < length (board s)" "j' < length (board s ! i')"
    using ij ij' by (auto dest: py_index_lt)
  define b1 where "b1 = (board s)[i' := (board s ! i')[j' := board s ! i ! j]]"
  define b2 where "b2 = b1[i := (b1 ! i)[j := CHR ''.'']]"
  have len1: "length b1 = length (board s)" "length (b1 ! i) = length (board s ! i)"
    using lt by (auto simp: b1_def nth_list_update)
  have s': "s' = \<lparr>board = b2, white_to_move = \<not> white_to_move s\<rparr>"
    using mk ij ij' len1 by (simp add: make_move_def get_cell_def set_cell_def b1_def b2_def)
  have len2: "length b2 = length (board s)" "length (b2 ! i) = length (board s ! i)"
    "length (b2 ! i') = length (board s ! i')"
    using lt by (auto simp: b1_def b2_def nth_list_update)
  define b3 where "b3 = b2[i := (b2 ! i)[j := b2 ! i' ! j']]"
  have len3: "length b3 = length (board s)" "length (b3 ! i') = length (board s ! i')"
    using lt by (auto simp: b1_def b2_def b3_def nth_list_update)
  have "b3[i' := (b3 ! i')[j' := board s ! i' ! j']] = board s"
    unfolding b3_def b2_def b1_def by (rule upd2_restore [OF lt])
  then show ?thesis
    using ij ij' len2 len3 c
    by (simp add: undo_move_def s' get_cell_def set_cell_def b3_def)
qed

text \<open>
  Claim C7. \<open>make_move\<close> and \<open>undo_move\<close> are inverses: if \<open>make_move\<close> performs a move
  and \<open>captured_piece\<close> is what the destination held before, then \<open>undo_move\<close> with that
  piece gives back the state before the move, board and side to move. (A move with a
  square off the board raises \<open>IndexError\<close> in \<open>make_move\<close> before anything is written.)
\<close>

theorem make_move_undo_move_inverse:
  "make_move s m = Some s' \<Longrightarrow> get_cell (board s) (snd m) = Some captured_piece
   \<Longrightarrow> undo_move s' m captured_piece = Some s"
  by (rule undo_after_make)

theorem make_move_undo_move_inverse_witness:
  "make_move init_engine ((6, 4), (4, 4)) = Some e4_engine
   \<and> get_cell (board init_engine) (snd ((6, 4), (4, 4))) = Some (CHR ''.'')
   \<and> undo_move e4_engine ((6, 4), (4, 4)) (CHR ''.'') = Some init_engine"
proof -
  have mk: "make_move init_engine ((6, 4), (4, 4)) = Some e4_engine"
    by code_simp
  have cap: "get_cell (board init_engine) (snd ((6 :: int, 4 :: int), (4 :: int, 4 :: int)))
             = Some (CHR ''.'')"
    by code_simp
  show ?thesis
    using mk cap make_move_undo_move_inverse [OF mk cap] by simp
qed

subsection \<open>The evaluator of the python-chess engine\<close>

text \<open>
  Claim C2, as the code has it. On a checkmate \<open>evaluate_board\<close> returns \<open>-inf\<close> when
  White is to move and \<open>+inf\<close> when Black is to move: the score of a mate is from
  White's side, below every evaluation of a position that is not a checkmate in the
  first case and above every one in the second.
\<close>

theorem checkmate_score_follows_colour:
  assumes "is_checkmate api b" and "\<not> is_checkmate api' b'"
  shows "(turn api b \<longrightarrow>
            evaluate_board api b = NegInf \<and> evaluate_board api b < evaluate_board api' b')
       \<and> (\<not> turn api b \<longrightarrow>
            evaluate_board api b = PosInf \<and> evaluate_board api' b' < evaluate_board api b)"
  using assms by (simp add: evaluate_board_def)

theorem checkmate_score_follows_colour_witness:
  "is_checkmate toy_api (14, []) \<and> \<not> is_checkmate toy_api (15, [])
   \<and> turn toy_api (14, [])
   \<and> evaluate_board toy_api (14, []) = NegInf
   \<and> evaluate_board toy_api (14, []) < evaluate_board toy_api (15, [])
   \<and> is_checkmate toy_api (13, []) \<and> \<not> turn toy_api (13, [])
   \<and> evaluate_board toy_api (13, []) = PosInf
   \<and> evaluate_board toy_api (15, []) < evaluate_board toy_api (13, [])"
proof -
  have a: "is_checkmate toy_api (14, [])" "is_checkmate toy_api (13, [])"
    by (simp_all add: toy_api_def)
  have b: "\<not> is_checkmate toy_api (15, [])"
    by (simp add: toy_api_def)
  have t: "turn toy_api (14, [])" "\<not> turn toy_api (13, [])"
    by (simp_all add: toy_api_def toy_white_def)
  have w: "evaluate_board toy_api (14, []) = NegInf
      \<and> evaluate_board toy_api (14, []) < evaluate_board toy_api (15, [])"
    using checkmate_score_follows_colour [OF a(1) b] t(1) by blast
  have k: "evaluate_board toy_api (13, []) = PosInf
      \<and> evaluate_board toy_api (15, []) < evaluate_board toy_api (13, [])"
    using checkmate_score_follows_colour [OF a(2) b] t(2) by blast
  show ?thesis
    using a b t w k by blast
qed

text \<open>
  Claim C2 as stated fails when Black is to move: the checkmate of position 13 is not
  scored below the position 15, which is not a checkmate.
\<close>

theorem checkmate_black_to_move_counterexample:
  "is_checkmate toy_api (13, []) \<and> \<not> is_checkmate toy_api (15, [])
   \<and> \<not> evaluate_board toy_api (13, []) < evaluate_board toy_api (15, [])"
  by (simp add: evaluate_board_def toy_api_def toy_white_def)

text \<open>
  Claim C4 on the code. \<open>PIECE_SQUARE_TABLES\<close> has no table for rook, queen and king,
  so a rook gets the bonus 0 on each of the 64 squares, and position 15 (the kings and
  a white rook, White to move) is scored with the rook's material value alone.
\<close>

theorem rook_scored_by_material_only:
  "PIECE_SQUARE_TABLES ROOK = None \<and> PIECE_SQUARE_TABLES QUEEN = None
   \<and> PIECE_SQUARE_TABLES KING = None
   \<and> map (pst_value ROOK) [0..<64] = replicate 64 0
   \<and> evaluate_board toy_api (15, []) = Fin 500"
  by code_simp

subsection \<open>The transposition table\<close>

text \<open>
  Claim C1 on \<open>minimax\<close>. From position 0 at depth 3, with an empty table and the full
  window, \<open>minimax\<close> returns 110 while the same search without pruning returns 150:
  position 5 is first searched under the window \<open>(-inf, 100)\<close>, cut off after its first
  move, and its score 105 is stored and reused where the window is wider.
\<close>

theorem pruned_cached_minimax_differs_from_full_width:
  "fst (minimax toy_api 3 (0, []) Map.empty NegInf PosInf True) = Fin 110
   \<and> fst (minimax_no_pruning toy_api 3 (0, []) Map.empty True) = Fin 150"
  by code_simp

text \<open>
  Claim C3 on \<open>minimax\<close>. From position 0 at depth 3, with the full window, \<open>minimax\<close>
  starting on an empty table returns 110 while the same search with the table disabled
  returns 150.
\<close>

theorem cached_minimax_differs_from_uncached:
  "fst (minimax toy_api 3 (0, []) Map.empty NegInf PosInf True) = Fin 110
   \<and> fst (minimax_no_cache toy_api 3 (0, []) NegInf PosInf True) = Fin 150"
  by code_simp

subsection \<open>The move that is kept\<close>

text \<open>
  Claim C5 on the code. On \<open>blocked_board\<close> White has one legal move, every line
  scores \<open>-inf\<close>, and the search keeps no move, at depth 3 and at depth 8:
  \<open>eval > max_eval\<close> is never true when \<open>max_eval\<close> starts at \<open>-inf\<close>. The
  selection loop of the python-chess engine does the same on position 16, where
  White has one legal move and is mated after it: the task of depth 2 returns \<open>-inf\<close>
  whether it finds the board with the move pushed or already popped, and with that
  result no move is kept.
\<close>

theorem no_move_kept_when_every_move_scores_neg_inf:
  "generate_legal_moves blocked_board = Some [((2, 0), (1, 0))]
   \<and> alpha_beta 3 blocked_board NegInf PosInf True = Some (blocked_board, NegInf, None)
   \<and> CE_get_best_move blocked_board 3 = Some (blocked_board, None)
   \<and> CE_get_best_move blocked_board 8 = Some (blocked_board, None)
   \<and> legal_moves toy_api (16, []) = [17]
   \<and> fst (minimax toy_api 2 (17, [16]) Map.empty NegInf PosInf False) = NegInf
   \<and> fst (minimax toy_api 2 (16, []) Map.empty NegInf PosInf False) = NegInf
   \<and> get_best_move toy_api 4 (\<lambda>ms b tt. ([NegInf], tt, b)) (16, []) Map.empty
       = Inr (None, Map.empty, (16, []))"
proof -
  have standalone:
    "generate_legal_moves blocked_board = Some [((2, 0), (1, 0))]
     \<and> alpha_beta 3 blocked_board NegInf PosInf True = Some (blocked_board, NegInf, None)
     \<and> CE_get_best_move blocked_board 3 = Some (blocked_board, None)
     \<and> CE_get_best_move blocked_board 8 = Some (blocked_board, None)"
    by code_simp
  have tasks:
    "legal_moves toy_api (16, []) = [17]
     \<and> fst (minimax toy_api 2 (17, [16]) Map.empty NegInf PosInf False) = NegInf
     \<and> fst (minimax toy_api 2 (16, []) Map.empty NegInf PosInf False) = NegInf"
    by code_simp
  have root: "get_best_move toy_api 4 (\<lambda>ms b tt. ([NegInf], tt, b)) (16, []) Map.empty
       = Inr (None, Map.empty, (16, []))"
    using tasks by (simp add: get_best_move_def)
  show ?thesis
    using standalone tasks root by blast
qed

text \<open>
  Claim C6. When the position has no legal move, \<open>get_best_move\<close> returns \<open>None\<close>,
  whatever the pool would do with a task: no task has been submitted, so the table
  and the board are as they were. (The worker count is positive; with a count of 0 or
  less the pool raises \<open>ValueError\<close> before any move is looked at.)
\<close>

theorem get_best_move_no_legal_moves:
  "legal_moves api b = [] \<Longrightarrow> 0 < threads
   \<Longrightarrow> get_best_move api threads pool b tt = Inr (None, tt, b)"
  by (simp add: get_best_move_def)

theorem get_best_move_no_legal_moves_witness:
  "legal_moves toy_api (13, []) = [] \<and> (0 :: int) < 4
   \<and> get_best_move toy_api 4 (\<lambda>ms b tt. ([], tt, b)) (13, []) Map.empty
       = Inr (None, Map.empty, (13, []))"
proof -
  have h: "legal_moves toy_api (13, []) = []"
    by (simp add: toy_api_def toy_succ_def)
  have t: "(0 :: int) < 4"
    by simp
  show ?thesis
    using h t get_best_move_no_legal_moves [OF h t] by simp
qed

subsection \<open>The search leaves the position as it found it\<close>

lemma max_loop_frame:
  assumes rec: "\<And>s a b mx s' v bm. search s a b mx = Some (s', v, bm) \<Longrightarrow> s' = s"
  shows "max_loop search ms s alpha beta max_eval best_move = Some (s', v, bm) \<Longrightarrow> s' = s"
proof (induction ms arbitrary: s alpha max_eval best_move)
  case Nil
  then show ?case by simp
next
  case (Cons m ms)
  from Cons.prems obtain cap s1 s2 ev x s3 where
    cap: "get_cell (board s) (snd m) = Some cap" and
    mk: "make_move s m = Some s1" and
    se: "search s1 alpha beta False = Some (s2, ev, x)" and
    un: "undo_move s2 m cap = Some s3"
    by (auto split: option.splits)
  have "s2 = s1" using rec [OF se] .
  with undo_after_make [OF mk cap] un have s3: "s3 = s" by simp
  show ?case
    using Cons.prems cap mk se un s3 Cons.IH
    by (auto simp: Let_def split: if_splits)
qed

lemma min_loop_frame:
  assumes rec: "\<And>s a b mx s' v bm. search s a b mx = Some (s', v, bm) \<Longrightarrow> s' = s"
  shows "min_loop search ms s alpha beta min_eval best_move = Some (s', v, bm) \<Longrightarrow> s' = s"
proof (induction ms arbitrary: s beta min_eval best_move)
  case Nil
  then show ?case by simp
next
  case (Cons m ms)
  from Cons.prems obtain cap s1 s2 ev x s3 where
    cap: "get_cell (board s) (snd m) = Some cap" and
    mk: "make_move s m = Some s1" and
    se: "search s1 alpha beta True = Some (s2, ev, x)" and
    un: "undo_move s2 m cap = Some s3"
    by (auto split: option.splits)
  have "s2 = s1" using rec [OF se] .
  with undo_after_make [OF mk cap] un have s3: "s3 = s" by simp
  show ?case
    using Cons.prems cap mk se un s3 Cons.IH
    by (auto simp: Let_def split: if_splits)
qed

lemma alpha_beta_frame:
  "alpha_beta d s alpha beta mx = Some (s', v, bm) \<Longrightarrow> s' = s"
proof (induction d arbitrary: s alpha beta mx s' v bm)
  case 0
  then show ?case by simp
next
  case (Suc d)
  show ?case
    using Suc.prems max_loop_frame [of "alpha_beta d", OF Suc.IH]
      min_loop_frame [of "alpha_beta d", OF Suc.IH]
    by (auto split: option.splits if_splits)
qed

lemma minimax_max_loop_frame:
  assumes pp: "\<And>b m. pop api (push api b m) = b"
    and rec: "\<And>b tt a be mx. snd (snd (search b tt a be mx)) = b"
  shows "snd (snd (minimax_max_loop api search ms b tt alpha beta max_eval)) = b"
proof (induction ms arbitrary: b tt alpha max_eval)
  case Nil
  then show ?case by simp
next
  case (Cons m ms)
  obtain ev tt1 b1 where se: "search (push api b m) tt alpha beta False = (ev, tt1, b1)"
    by (cases "search (push api b m) tt alpha beta False") auto
  have "b1 = push api b m" using rec [of "push api b m" tt alpha beta False] se by simp
  then have "pop api b1 = b" by (simp add: pp)
  then show ?case using se Cons.IH by (simp add: Let_def)
qed

lemma minimax_min_loop_frame:
  assumes pp: "\<And>b m. pop api (push api b m) = b"
    and rec: "\<And>b tt a be mx. snd (snd (search b tt a be mx)) = b"
  shows "snd (snd (minimax_min_loop api search ms b tt alpha beta min_eval)) = b"
proof (induction ms arbitrary: b tt beta min_eval)
  case Nil
  then show ?case by simp
next
  case (Cons m ms)
  obtain ev tt1 b1 where se: "search (push api b m) tt alpha beta True = (ev, tt1, b1)"
    by (cases "search (push api b m) tt alpha beta True") auto
  have "b1 = push api b m" using rec [of "push api b m" tt alpha beta True] se by simp
  then have "pop api b1 = b" by (simp add: pp)
  then show ?case using se Cons.IH by (simp add: Let_def)
qed

lemma minimax_frame:
  assumes pp: "\<And>b m. pop api (push api b m) = b"
  shows "snd (snd (minimax api d b tt alpha beta mx)) = b"
proof (induction d arbitrary: b tt alpha beta mx)
  case 0
  then show ?case by (simp add: Let_def split: option.splits)
next
  case (Suc d)
  have mx: "snd (snd (minimax_max_loop api (minimax api d) ms b tt alpha beta e)) = b" for ms e
    by (rule minimax_max_loop_frame [OF pp Suc.IH])
  have mn: "snd (snd (minimax_min_loop api (minimax api d) ms b tt alpha beta e)) = b" for ms e
    by (rule minimax_min_loop_frame [OF pp Suc.IH])
  show ?case
    using mx [of "legal_moves api b" NegInf] mn [of "legal_moves api b" PosInf]
    by (auto simp: minimax_node_def Let_def split: option.splits prod.splits)
qed

text \<open>
  Claim C9. The search leaves the position unchanged. For \<open>minimax\<close>, on a board whose
  \<open>pop\<close> undoes \<open>push\<close> (the contract of the library), the board returned is the board
  passed in, for every depth, table, window and flag. For \<open>alpha_beta\<close>, whenever the
  call returns, the engine state returned is the state passed in. Both hold on the
  path that leaves the loop at the cutoff as well.
\<close>

theorem search_restores_position:
  "((\<forall>b m. pop api (push api b m) = b) \<longrightarrow>
      snd (snd (minimax api d b tt alpha beta mx)) = b)
   \<and> (\<forall>s' v bm. alpha_beta d' s alpha' beta' mx' = Some (s', v, bm) \<longrightarrow> s' = s)"
  using minimax_frame [of api d b tt alpha beta mx] alpha_beta_frame [of d' s alpha' beta' mx']
  by blast

theorem search_restores_position_witness:
  "(\<forall>b m. pop toy_api (push toy_api b m) = b)
   \<and> snd (snd (minimax toy_api 3 (0, []) Map.empty NegInf PosInf True)) = (0, [])
   \<and> alpha_beta 3 blocked_board NegInf PosInf True = Some (blocked_board, NegInf, None)"
proof -
  have pp: "\<forall>b m. pop toy_api (push toy_api b m) = b"
    by (simp add: toy_api_def)
  have ab: "alpha_beta 3 blocked_board NegInf PosInf True = Some (blocked_board, NegInf, None)"
    by code_simp
  show ?thesis
    using pp ab search_restores_position [of toy_api 3 "(0, [])" Map.empty NegInf PosInf True
        3 blocked_board NegInf PosInf True]
    by blast
qed

subsection \<open>Pruning in the standalone engine\<close>

text \<open>
  \<open>alpha_beta\<close> has no table, and its cutoff does not change the score of the root:
  under a window \<open>(a, b)\<close> with \<open>a < b\<close> the score returned is tied to the score of
  the full search by \<open>window_bound\<close>, and under the full window it is that score.
  This holds whenever the full search returns, that is, raises no \<open>IndexError\<close>.
\<close>

lemma window_bound_refl: "a < b \<Longrightarrow> window_bound a b v v"
  by (auto simp: window_bound_def)

lemma window_bound_full: "window_bound NegInf PosInf v r \<Longrightarrow> r = v"
  by (cases v; cases r) (auto simp: window_bound_def split: if_splits)

lemma window_bound_max_step:
  assumes "window_bound a b V e" "max a e < b" "window_bound (max a e) b c r"
  shows "window_bound a b (max V c) (max e r)"
  using assms by (auto simp: window_bound_def max_def split: if_splits)

lemma window_bound_max_cut:
  assumes "window_bound a b V e" "max a e < b" "window_bound (max a e) b c r"
    "b \<le> max (max a e) r" "max V c \<le> W"
  shows "window_bound a b W (max e r)"
  using assms by (auto simp: window_bound_def max_def split: if_splits)

lemma window_bound_min_step:
  assumes "window_bound a b V e" "a < min b e" "window_bound a (min b e) c r"
  shows "window_bound a b (min V c) (min e r)"
  using assms by (auto simp: window_bound_def min_def split: if_splits)

lemma window_bound_min_cut:
  assumes "window_bound a b V e" "a < min b e" "window_bound a (min b e) c r"
    "min (min b e) r \<le> a" "W \<le> min V c"
  shows "window_bound a b W (min e r)"
  using assms by (auto simp: window_bound_def min_def split: if_splits)

lemma if_less_max: "(if (e::score) < r then r else e) = max e r"
  by (auto simp: max_def)

lemma if_less_min: "(if (r::score) < e then r else e) = min e r"
  by (auto simp: min_def)

lemma full_max_loop_ge:
  "full_max_loop fsearch ms s V = Some (s', W) \<Longrightarrow> V \<le> W"
proof (induction ms arbitrary: s V)
  case Nil
  then show ?case by simp
next
  case (Cons m ms)
  from Cons.prems obtain s3 c where "full_max_loop fsearch ms s3 (max V c) = Some (s', W)"
    by (auto simp: if_less_max split: option.splits)
  from Cons.IH [OF this] show ?case by simp
qed

lemma full_min_loop_le:
  "full_min_loop fsearch ms s V = Some (s', W) \<Longrightarrow> W \<le> V"
proof (induction ms arbitrary: s V)
  case Nil
  then show ?case by simp
next
  case (Cons m ms)
  from Cons.prems obtain s3 c where "full_min_loop fsearch ms s3 (min V c) = Some (s', W)"
    by (auto simp: if_less_min split: option.splits)
  from Cons.IH [OF this] show ?case by simp
qed

lemma full_max_loop_frame:
  assumes F: "\<And>s mx s' v. fsearch s mx = Some (s', v) \<Longrightarrow> s' = s"
  shows "full_max_loop fsearch ms s V = Some (s', W) \<Longrightarrow> s' = s"
proof (induction ms arbitrary: V)
  case Nil
  then show ?case by simp
next
  case (Cons m ms)
  from Cons.prems obtain cap s1 s2 c s3 where
    cap: "get_cell (board s) (snd m) = Some cap" and
    mk: "make_move s m = Some s1" and
    fs: "fsearch s1 False = Some (s2, c)" and
    un: "undo_move s2 m cap = Some s3" and
    rest: "full_max_loop fsearch ms s3 (max V c) = Some (s', W)"
    by (auto simp: if_less_max split: option.splits)
  from undo_after_make [OF mk cap] un F [OF fs] have "s3 = s" by simp
  with rest Cons.IH show ?case by simp
qed

lemma full_min_loop_frame:
  assumes F: "\<And>s mx s' v. fsearch s mx = Some (s', v) \<Longrightarrow> s' = s"
  shows "full_min_loop fsearch ms s V = Some (s', W) \<Longrightarrow> s' = s"
proof (induction ms arbitrary: V)
  case Nil
  then show ?case by simp
next
  case (Cons m ms)
  from Cons.prems obtain cap s1 s2 c s3 where
    cap: "get_cell (board s) (snd m) = Some cap" and
    mk: "make_move s m = Some s1" and
    fs: "fsearch s1 True = Some (s2, c)" and
    un: "undo_move s2 m cap = Some s3" and
    rest: "full_min_loop fsearch ms s3 (min V c) = Some (s', W)"
    by (auto simp: if_less_min split: option.splits)
  from undo_after_make [OF mk cap] un F [OF fs] have "s3 = s" by simp
  with rest Cons.IH show ?case by simp
qed

lemma max_loop_sound:
  assumes H: "\<And>s a b mx s' v. a < b \<Longrightarrow> fsearch s mx = Some (s', v) \<Longrightarrow>
      s' = s \<and> (\<exists>r bm. search s a b mx = Some (s, r, bm) \<and> window_bound a b v r)"
  shows "full_max_loop fsearch ms s V = Some (s', W) \<Longrightarrow> window_bound a b V e
     \<Longrightarrow> max a e < b
     \<Longrightarrow> s' = s \<and> (\<exists>r bm'. max_loop search ms s (max a e) b e bm = Some (s, r, bm')
                       \<and> window_bound a b W r)"
proof (induction ms arbitrary: V e bm)
  case Nil
  then show ?case by simp
next
  case (Cons m ms)
  from Cons.prems(1) obtain cap s1 s2 c s3 where
    cap: "get_cell (board s) (snd m) = Some cap" and
    mk: "make_move s m = Some s1" and
    fs: "fsearch s1 False = Some (s2, c)" and
    un: "undo_move s2 m cap = Some s3" and
    rest: "full_max_loop fsearch ms s3 (max V c) = Some (s', W)"
    by (auto simp: if_less_max split: option.splits)
  from H [OF Cons.prems(3) fs] obtain r x where
    s2: "s2 = s1" and se: "search s1 (max a e) b False = Some (s1, r, x)"
    and wb: "window_bound (max a e) b c r"
    by blast
  from undo_after_make [OF mk cap] un s2 have s3: "s3 = s" by simp
  have un': "undo_move s1 m cap = Some s" using un s2 s3 by simp
  show ?case
  proof (cases "b \<le> max (max a e) r")
    case True
    have "max V c \<le> W" using full_max_loop_ge [OF rest] .
    then have "window_bound a b W (max e r)"
      using window_bound_max_cut [OF Cons.prems(2,3) wb True] by blast
    moreover have "s' = s"
    proof (rule full_max_loop_frame [OF _ Cons.prems(1)])
      fix t mx t' v
      assume "fsearch t mx = Some (t', v)"
      with H [of NegInf PosInf t mx t' v] show "t' = t" by simp
    qed
    ultimately show ?thesis
      using cap mk se un' True by (simp add: if_less_max Let_def)
  next
    case False
    then have lt: "max a (max e r) < b" by (auto simp: max_def split: if_splits)
    have wb': "window_bound a b (max V c) (max e r)"
      by (rule window_bound_max_step [OF Cons.prems(2,3) wb])
    from Cons.IH [OF rest [unfolded s3] wb' lt]
    show ?thesis
      using cap mk se un' False by (simp add: if_less_max Let_def max.assoc)
  qed
qed

lemma min_loop_sound:
  assumes H: "\<And>s a b mx s' v. a < b \<Longrightarrow> fsearch s mx = Some (s', v) \<Longrightarrow>
      s' = s \<and> (\<exists>r bm. search s a b mx = Some (s, r, bm) \<and> window_bound a b v r)"
  shows "full_min_loop fsearch ms s V = Some (s', W) \<Longrightarrow> window_bound a b V e
     \<Longrightarrow> a < min b e
     \<Longrightarrow> s' = s \<and> (\<exists>r bm'. min_loop search ms s a (min b e) e bm = Some (s, r, bm')
                       \<and> window_bound a b W r)"
proof (induction ms arbitrary: V e bm)
  case Nil
  then show ?case by simp
next
  case (Cons m ms)
  from Cons.prems(1) obtain cap s1 s2 c s3 where
    cap: "get_cell (board s) (snd m) = Some cap" and
    mk: "make_move s m = Some s1" and
    fs: "fsearch s1 True = Some (s2, c)" and
    un: "undo_move s2 m cap = Some s3" and
    rest: "full_min_loop fsearch ms s3 (min V c) = Some (s', W)"
    by (auto simp: if_less_min split: option.splits)
  from H [OF Cons.prems(3) fs] obtain r x where
    s2: "s2 = s1" and se: "search s1 a (min b e) True = Some (s1, r, x)"
    and wb: "window_bound a (min b e) c r"
    by blast
  from undo_after_make [OF mk cap] un s2 have s3: "s3 = s" by simp
  have un': "undo_move s1 m cap = Some s" using un s2 s3 by simp
  show ?case
  proof (cases "min (min b e) r \<le> a")
    case True
    have "W \<le> min V c" using full_min_loop_le [OF rest] .
    then have "window_bound a b W (min e r)"
      using window_bound_min_cut [OF Cons.prems(2,3) wb True] by blast
    moreover have "s' = s"
    proof (rule full_min_loop_frame [OF _ Cons.prems(1)])
      fix t mx t' v
      assume "fsearch t mx = Some (t', v)"
      with H [of NegInf PosInf t mx t' v] show "t' = t" by simp
    qed
    ultimately show ?thesis
      using cap mk se un' True by (simp add: if_less_min Let_def)
  next
    case False
    then have lt: "a < min b (min e r)" by (auto simp: min_def split: if_splits)
    have wb': "window_bound a b (min V c) (min e r)"
      by (rule window_bound_min_step [OF Cons.prems(2,3) wb])
    from Cons.IH [OF rest [unfolded s3] wb' lt]
    show ?thesis
      using cap mk se un' False by (simp add: if_less_min Let_def min.assoc)
  qed
qed

lemma alpha_beta_sound:
  "a < b \<Longrightarrow> alpha_beta_no_pruning d s mx = Some (s', v) \<Longrightarrow>
   s' = s \<and> (\<exists>r bm. alpha_beta d s a b mx = Some (s, r, bm) \<and> window_bound a b v r)"
proof (induction d arbitrary: s a b mx s' v)
  case 0
  then show ?case by (auto simp: window_bound_refl)
next
  case (Suc d)
  from Suc.prems(2) obtain ms where g: "generate_legal_moves s = Some ms"
    by (auto split: option.splits)
  show ?case
  proof (cases "ms = []")
    case True
    with Suc.prems g show ?thesis by (auto simp: window_bound_refl)
  next
    case False
    have init_max: "window_bound a b NegInf NegInf" "max a NegInf < b"
      using Suc.prems(1) by (auto simp: window_bound_def max_def)
    have init_min: "window_bound a b PosInf PosInf" "a < min b PosInf"
      using Suc.prems(1) by (auto simp: window_bound_def min_def)
    have ma: "max a NegInf = a" by (simp add: max_def)
    have mi: "min b PosInf = b" by (auto simp: min_def)
    show ?thesis
    proof (cases mx)
      case True
      with Suc.prems(2) g False
      have f: "full_max_loop (alpha_beta_no_pruning d) ms s NegInf = Some (s', v)" by simp
      from max_loop_sound [of "alpha_beta_no_pruning d" "alpha_beta d", OF Suc.IH f init_max, of None]
      show ?thesis using g False True by (simp add: ma)
    next
      case mxF: False
      with Suc.prems(2) g False
      have f: "full_min_loop (alpha_beta_no_pruning d) ms s PosInf = Some (s', v)" by simp
      from min_loop_sound [of "alpha_beta_no_pruning d" "alpha_beta d", OF Suc.IH f init_min, of None]
      show ?thesis using g False mxF by (simp add: mi)
    qed
  qed
qed

lemma alpha_beta_equals_full_width:
  assumes "alpha_beta_no_pruning d s mx = Some (s', v)"
  shows "\<exists>bm. alpha_beta d s NegInf PosInf mx = Some (s, v, bm)"
proof -
  have "NegInf < PosInf" by simp
  from alpha_beta_sound [OF this assms] obtain r bm where
    "alpha_beta d s NegInf PosInf mx = Some (s, r, bm)" "window_bound NegInf PosInf v r"
    by blast
  then show ?thesis using window_bound_full by blast
qed


subsection \<open>Which move the selection loop keeps\<close>

text \<open>
  \<open>select_best\<close> keeps the first of the moves with the greatest score, unless no score
  is above the initial \<open>best_eval\<close>, in which case it keeps the initial \<open>best_move\<close>.
\<close>

lemma select_best_cases:
  "select_best fs be bm = bm \<and> (\<forall>j<length fs. snd (fs ! j) \<le> be)
   \<or> (\<exists>i<length fs. select_best fs be bm = Some (fst (fs ! i)) \<and> be < snd (fs ! i)
        \<and> (\<forall>j<i. snd (fs ! j) < snd (fs ! i)) \<and> (\<forall>j<length fs. snd (fs ! j) \<le> snd (fs ! i)))"
proof (induction fs arbitrary: be bm)
  case Nil
  then show ?case by simp
next
  case (Cons f fs)
  obtain m e where f: "f = (m, e)" by (cases f)
  show ?case
  proof (cases "be < e")
    case True
    from Cons.IH [of e "Some m"] show ?thesis
    proof
      assume a: "select_best fs e (Some m) = Some m \<and> (\<forall>j<length fs. snd (fs ! j) \<le> e)"
      have "\<forall>j<length (f # fs). snd ((f # fs) ! j) \<le> e"
        using a f by (auto simp: nth_Cons split: nat.splits)
      then show ?thesis
        using a f True by (intro disjI2 exI [of _ 0]) simp
    next
      assume "\<exists>i<length fs. select_best fs e (Some m) = Some (fst (fs ! i)) \<and> e < snd (fs ! i)
        \<and> (\<forall>j<i. snd (fs ! j) < snd (fs ! i)) \<and> (\<forall>j<length fs. snd (fs ! j) \<le> snd (fs ! i))"
      then obtain i where i: "i < length fs" "select_best fs e (Some m) = Some (fst (fs ! i))"
        "e < snd (fs ! i)" "\<forall>j<i. snd (fs ! j) < snd (fs ! i)"
        "\<forall>j<length fs. snd (fs ! j) \<le> snd (fs ! i)"
        by blast
      have "\<forall>j<Suc i. snd ((f # fs) ! j) < snd (fs ! i)"
        using i f by (auto simp: nth_Cons split: nat.splits)
      moreover have "\<forall>j<length (f # fs). snd ((f # fs) ! j) \<le> snd (fs ! i)"
        using i f by (auto simp: nth_Cons split: nat.splits)
      ultimately show ?thesis
        using i f True by (intro disjI2 exI [of _ "Suc i"]) auto
    qed
  next
    case False
    from Cons.IH [of be bm] show ?thesis
    proof
      assume a: "select_best fs be bm = bm \<and> (\<forall>j<length fs. snd (fs ! j) \<le> be)"
      have "\<forall>j<length (f # fs). snd ((f # fs) ! j) \<le> be"
        using a f False by (auto simp: nth_Cons split: nat.splits)
      then show ?thesis using a f False by simp
    next
      assume "\<exists>i<length fs. select_best fs be bm = Some (fst (fs ! i)) \<and> be < snd (fs ! i)
        \<and> (\<forall>j<i. snd (fs ! j) < snd (fs ! i)) \<and> (\<forall>j<length fs. snd (fs ! j) \<le> snd (fs ! i))"
      then obtain i where i: "i < length fs" "select_best fs be bm = Some (fst (fs ! i))"
        "be < snd (fs ! i)" "\<forall>j<i. snd (fs ! j) < snd (fs ! i)"
        "\<forall>j<length fs. snd (fs ! j) \<le> snd (fs ! i)"
        by blast
      have "\<forall>j<Suc i. snd ((f # fs) ! j) < snd (fs ! i)"
        using i f False by (auto simp: nth_Cons split: nat.splits)
      moreover have "\<forall>j<length (f # fs). snd ((f # fs) ! j) \<le> snd (fs ! i)"
        using i f False by (auto simp: nth_Cons split: nat.splits)
      ultimately show ?thesis
        using i f False by (intro disjI2 exI [of _ "Suc i"]) auto
    qed
  qed
qed

lemma select_best_first_maximum:
  assumes "\<exists>j<length fs. snd (fs ! j) \<noteq> NegInf"
  shows "\<exists>i<length fs. select_best fs NegInf None = Some (fst (fs ! i))
           \<and> (\<forall>j<i. snd (fs ! j) < snd (fs ! i)) \<and> (\<forall>j<length fs. snd (fs ! j) \<le> snd (fs ! i))"
  using select_best_cases [of fs NegInf None] assms by auto


lemma select_best_PosInf: "select_best fs PosInf bm = bm"
  by (induction fs) auto

lemma make_move_captured:
  "make_move s m = Some s1 \<Longrightarrow> \<exists>cap. get_cell (board s) (snd m) = Some cap"
  by (auto simp: make_move_def set_cell_def get_cell_def split: option.splits)

lemma window_bound_above:
  assumes "window_bound e PosInf c r"
  shows "(e < r) = (e < c)" and "max e r = max e c"
  using assms by (auto simp: window_bound_def max_def split: if_splits)

text \<open>
  At the root of the standalone search the window is full, and the move returned is
  the one that \<open>select_best\<close> picks from the legal moves with their scores: the first
  of the moves with the greatest score, if some move scores above \<open>-inf\<close>.
\<close>

lemma root_max_loop:
  assumes H: "\<And>s a b mx s' v. a < b \<Longrightarrow> fsearch s mx = Some (s', v) \<Longrightarrow>
      s' = s \<and> (\<exists>r bm. search s a b mx = Some (s, r, bm) \<and> window_bound a b v r)"
  shows "move_scores fsearch False ms s = Some fs \<Longrightarrow> e < PosInf \<Longrightarrow>
     \<exists>r. max_loop search ms s e PosInf e bm = Some (s, r, select_best fs e bm)"
proof (induction ms arbitrary: e bm fs)
  case Nil
  then show ?case by simp
next
  case (Cons m ms)
  from Cons.prems(1) obtain s1 s2 c fs' where
    mk: "make_move s m = Some s1" and
    fs: "fsearch s1 False = Some (s2, c)" and
    rest: "move_scores fsearch False ms s = Some fs'" and
    fs_eq: "fs = (m, c) # fs'"
    by (auto split: option.splits)
  from make_move_captured [OF mk] obtain cap where
    cap: "get_cell (board s) (snd m) = Some cap" by blast
  from H [OF Cons.prems(2) fs] obtain r x where
    s2: "s2 = s1" and se: "search s1 e PosInf False = Some (s1, r, x)"
    and wb: "window_bound e PosInf c r"
    by blast
  have un: "undo_move s1 m cap = Some s" by (rule undo_after_make [OF mk cap])
  note ab = window_bound_above [OF wb]
  show ?case
  proof (cases "PosInf \<le> max e r")
    case True
    then have "c = PosInf" using ab(2) Cons.prems(2) by (auto simp: max_def split: if_splits)
    then have "select_best fs e bm = Some m"
      using fs_eq Cons.prems(2) by (simp add: select_best_PosInf)
    moreover have "e < r" using ab(1) \<open>c = PosInf\<close> Cons.prems(2) by simp
    ultimately show ?thesis
      using cap mk se un True by (simp add: Let_def)
  next
    case False
    then have lt: "max e c < PosInf" using ab(2) by (cases "max e c") auto
    show ?thesis
    proof (cases "e < c")
      case True
      then have mc: "max e c = c" by (auto simp: max_def)
      from Cons.IH [OF rest lt, of "Some m"] obtain r' where
        "max_loop search ms s c PosInf c (Some m) = Some (s, r', select_best fs' c (Some m))"
        by (auto simp: mc)
      then show ?thesis
        using cap mk se un False True ab fs_eq by (simp add: Let_def mc)
    next
      case nlt: False
      then have mc: "max e c = e" by (auto simp: max_def)
      from Cons.IH [OF rest lt, of bm] obtain r' where
        "max_loop search ms s e PosInf e bm = Some (s, r', select_best fs' e bm)"
        by (auto simp: mc)
      then show ?thesis
        using cap mk se un False nlt ab fs_eq by (simp add: Let_def mc)
    qed
  qed
qed

lemma root_best_move:
  assumes g: "generate_legal_moves s = Some ms"
    and sc: "move_scores (alpha_beta_no_pruning d) False ms s = Some fs"
  shows "\<exists>r. alpha_beta (Suc d) s NegInf PosInf True
             = Some (s, r, select_best fs NegInf None)"
proof (cases "ms = []")
  case True
  with g sc show ?thesis by auto
next
  case False
  have "NegInf < PosInf" by simp
  from root_max_loop [of "alpha_beta_no_pruning d" "alpha_beta d" ms s fs NegInf None,
      OF alpha_beta_sound sc this]
  show ?thesis using g False by simp
qed

lemma root_keeps_first_best_move:
  assumes g: "generate_legal_moves s = Some ms"
    and sc: "move_scores (alpha_beta_no_pruning d) False ms s = Some fs"
    and some: "\<exists>j<length fs. snd (fs ! j) \<noteq> NegInf"
  shows "\<exists>i<length fs. CE_get_best_move s (Suc d) = Some (s, Some (fst (fs ! i)))
           \<and> (\<forall>j<i. snd (fs ! j) < snd (fs ! i))
           \<and> (\<forall>j<length fs. snd (fs ! j) \<le> snd (fs ! i))"
proof -
  from root_best_move [OF g sc] obtain r where
    "alpha_beta (Suc d) s NegInf PosInf True = Some (s, r, select_best fs NegInf None)"
    by blast
  then have "CE_get_best_move s (Suc d) = Some (s, select_best fs NegInf None)"
    by (simp add: CE_get_best_move_def)
  with select_best_first_maximum [OF some] show ?thesis by auto
qed


subsection \<open>Move generation of the standalone engine\<close>

lemma upper_P: "upper c = CHR ''P'' \<longleftrightarrow> c = CHR ''P'' \<or> c = CHR ''p''"
proof -
  have a: "(of_char c :: nat) = 80 \<longleftrightarrow> c = CHR ''P''"
    using of_char_eq_iff [of c "CHR ''P''", where ?'a = nat] by simp
  have b: "(of_char c :: nat) = 112 \<longleftrightarrow> c = CHR ''p''"
    using of_char_eq_iff [of c "CHR ''p''", where ?'a = nat] by simp
  show ?thesis
    unfolding upper_def using a b
    by (auto simp: char_of_eq_iff take_bit_eq_mod)
qed

lemma isupper_P [simp]: "isupper (CHR ''P'')" "\<not> isupper (CHR ''p'')"
  by (simp_all add: isupper_def)

lemma py_index_nat: "k < n \<Longrightarrow> py_index n (int k) = Some k"
  by (simp add: py_index_def)

lemma get_cell_nat:
  "r < length b \<Longrightarrow> c < length (b ! r) \<Longrightarrow> get_cell b (int r, int c) = Some (b ! r ! c)"
  by (simp add: get_cell_def py_index_nat)

lemma generate_piece_moves_shape:
  assumes g: "generate_piece_moves s (r, c) (board s ! r ! c) = Some ms"
    and r: "r < length (board s)" and c: "c < length (board s ! r)"
    and side: "isupper (board s ! r ! c) = white_to_move s"
    and m: "m \<in> set ms"
  shows "get_cell (board s) (snd m) = Some (CHR ''.'')"
    and "0 \<le> fst (snd m) \<Longrightarrow> is_pawn_push s m"
proof -
  have P: "board s ! r ! c = CHR ''P'' \<or> board s ! r ! c = CHR ''p''"
    using g m by (auto simp: generate_piece_moves_def Let_def upper_P split: if_splits)
  show "get_cell (board s) (snd m) = Some (CHR ''.'')"
    using P g m
    by (auto simp: generate_piece_moves_def Let_def upper_P split: if_splits option.splits)
  show "is_pawn_push s m" if "0 \<le> fst (snd m)"
    using that P g m side get_cell_nat [OF r c]
    by (auto simp: generate_piece_moves_def is_pawn_push_def Let_def upper_P
             split: if_splits option.splits)
qed

lemma gen_row_moves:
  "gen_row s r c cells = Some ms \<Longrightarrow> m \<in> set ms \<Longrightarrow>
   \<exists>i ms'. i < length cells \<and> isupper (cells ! i) = white_to_move s
      \<and> generate_piece_moves s (r, c + i) (cells ! i) = Some ms' \<and> m \<in> set ms'"
proof (induction cells arbitrary: c ms)
  case Nil
  then show ?case by simp
next
  case (Cons piece rest)
  from Cons.prems(1) obtain ms1 ms2 where
    h: "(if (isupper piece = white_to_move s) \<and> piece \<noteq> CHR ''.''
         then generate_piece_moves s (r, c) piece else Some []) = Some ms1"
    and t: "gen_row s r (Suc c) rest = Some ms2" and ms: "ms = ms1 @ ms2"
    by (auto split: option.splits)
  from Cons.prems(2) ms consider "m \<in> set ms1" | "m \<in> set ms2" by auto
  then show ?case
  proof cases
    case 1
    with h have "isupper piece = white_to_move s \<and> generate_piece_moves s (r, c) piece = Some ms1"
      by (auto split: if_splits)
    with 1 show ?thesis by (intro exI [of _ 0] exI [of _ ms1]) simp
  next
    case 2
    from Cons.IH [OF t 2] obtain i ms' where
      "i < length rest" "isupper (rest ! i) = white_to_move s"
      "generate_piece_moves s (r, Suc c + i) (rest ! i) = Some ms'" "m \<in> set ms'"
      by blast
    then show ?thesis by (intro exI [of _ "Suc i"] exI [of _ ms']) simp
  qed
qed

lemma gen_rows_moves:
  "gen_rows s r rows = Some ms \<Longrightarrow> m \<in> set ms \<Longrightarrow>
   \<exists>k i ms'. k < length rows \<and> i < length (rows ! k)
      \<and> isupper (rows ! k ! i) = white_to_move s
      \<and> generate_piece_moves s (r + k, i) (rows ! k ! i) = Some ms' \<and> m \<in> set ms'"
proof (induction rows arbitrary: r ms)
  case Nil
  then show ?case by simp
next
  case (Cons row rows)
  from Cons.prems(1) obtain ms1 ms2 where
    h: "gen_row s r 0 row = Some ms1"
    and t: "gen_rows s (Suc r) rows = Some ms2" and ms: "ms = ms1 @ ms2"
    by (auto split: option.splits)
  from Cons.prems(2) ms consider "m \<in> set ms1" | "m \<in> set ms2" by auto
  then show ?case
  proof cases
    case 1
    from gen_row_moves [OF h 1] obtain i ms' where
      "i < length row" "isupper (row ! i) = white_to_move s"
      "generate_piece_moves s (r, 0 + i) (row ! i) = Some ms'" "m \<in> set ms'"
      by blast
    then show ?thesis by (intro exI [of _ 0] exI [of _ i] exI [of _ ms']) simp
  next
    case 2
    from Cons.IH [OF t 2] obtain k i ms' where
      "k < length rows" "i < length (rows ! k)" "isupper (rows ! k ! i) = white_to_move s"
      "generate_piece_moves s (Suc r + k, i) (rows ! k ! i) = Some ms'" "m \<in> set ms'"
      by blast
    then show ?thesis by (intro exI [of _ "Suc k"] exI [of _ i] exI [of _ ms']) simp
  qed
qed

text \<open>
  Every generated move ends on an empty square, and is a pawn push if the row it ends
  on has a non-negative index.
\<close>

lemma generated_moves_shape:
  assumes "generate_legal_moves s = Some ms" and "m \<in> set ms"
  shows "get_cell (board s) (snd m) = Some (CHR ''.'')"
    and "0 \<le> fst (snd m) \<Longrightarrow> is_pawn_push s m"
proof -
  from gen_rows_moves [OF assms(1) [unfolded generate_legal_moves_def] assms(2)]
  obtain k i ms' where *:
    "k < length (board s)" "i < length (board s ! k)"
    "isupper (board s ! k ! i) = white_to_move s"
    "generate_piece_moves s (0 + k, i) (board s ! k ! i) = Some ms'" "m \<in> set ms'"
    by blast
  then have g: "generate_piece_moves s (k, i) (board s ! k ! i) = Some ms'" by simp
  show "get_cell (board s) (snd m) = Some (CHR ''.'')"
    by (rule generate_piece_moves_shape(1) [OF g *(1,2,3,5)])
  show "is_pawn_push s m" if "0 \<le> fst (snd m)"
    by (rule generate_piece_moves_shape(2) [OF g *(1,2,3,5) that])
qed

lemma mset_concat_update:
  assumes "i < length b" "j < length (b ! i)"
  shows "mset (concat (b[i := (b ! i)[j := v]])) = add_mset v (mset (concat b) - {#b ! i ! j#})"
proof -
  have b: "b = take i b @ (b ! i) # drop (Suc i) b"
    using assms(1) by (simp add: id_take_nth_drop)
  have u: "b[i := (b ! i)[j := v]] = take i b @ (b ! i)[j := v] # drop (Suc i) b"
    using assms(1) by (simp add: upd_conv_take_nth_drop)
  have in_row: "b ! i ! j \<in># mset (b ! i)"
    using assms(2) by simp
  have "mset (concat (b[i := (b ! i)[j := v]]))
        = mset (concat (take i b)) + mset ((b ! i)[j := v]) + mset (concat (drop (Suc i) b))"
    by (subst u) simp
  also have "mset ((b ! i)[j := v]) = add_mset v (mset (b ! i) - {#b ! i ! j#})"
    using assms(2) by (simp add: mset_update)
  also have "mset (concat (take i b)) + add_mset v (mset (b ! i) - {#b ! i ! j#})
               + mset (concat (drop (Suc i) b))
             = add_mset v ((mset (concat (take i b)) + mset (b ! i)
               + mset (concat (drop (Suc i) b))) - {#b ! i ! j#})"
    using in_row by (simp add: insert_DiffM)
  also have "mset (concat (take i b)) + mset (b ! i) + mset (concat (drop (Suc i) b))
             = mset (concat b)"
    by (subst (4) b) simp
  finally show ?thesis .
qed

lemma get_cell_cases:
  assumes "get_cell b p = Some x"
  obtains i j where "py_index (length b) (fst p) = Some i"
    "py_index (length (b ! i)) (snd p) = Some j" "i < length b" "j < length (b ! i)"
    "x = b ! i ! j"
  using assms by (auto simp: get_cell_def split: option.splits dest: py_index_lt)

lemma set_cell_mset:
  assumes st: "set_cell b p v = Some b'" and gt: "get_cell b p = Some old"
  shows "mset (concat b') = add_mset v (mset (concat b) - {#old#})"
proof -
  from gt obtain i j where ij: "py_index (length b) (fst p) = Some i"
    "py_index (length (b ! i)) (snd p) = Some j" "i < length b" "j < length (b ! i)"
    "old = b ! i ! j"
    by (rule get_cell_cases)
  from st ij have "b' = b[i := (b ! i)[j := v]]"
    by (simp add: set_cell_def)
  then show ?thesis
    using mset_concat_update [OF ij(3,4), of v] ij(5) by simp
qed

lemma get_cell_in_mset:
  assumes "get_cell b p = Some x"
  shows "x \<in># mset (concat b)"
proof -
  from assms obtain i j where "i < length b" "j < length (b ! i)" "x = b ! i ! j"
    by (rule get_cell_cases)
  then have "x \<in> set (b ! i)" "b ! i \<in> set b" by simp_all
  then show ?thesis by auto
qed

lemma get_after_set_cell:
  assumes st: "set_cell b q v = Some b'" and gq: "get_cell b q = Some v'"
    and gp: "get_cell b p = Some x"
  shows "get_cell b' p = Some x \<or> get_cell b' p = Some v"
proof -
  from gq obtain i j where ij: "py_index (length b) (fst q) = Some i"
    "py_index (length (b ! i)) (snd q) = Some j" "i < length b" "j < length (b ! i)"
    "v' = b ! i ! j"
    by (rule get_cell_cases)
  from gp obtain k l where kl: "py_index (length b) (fst p) = Some k"
    "py_index (length (b ! k)) (snd p) = Some l" "k < length b" "l < length (b ! k)"
    "x = b ! k ! l"
    by (rule get_cell_cases)
  from st ij have b': "b' = b[i := (b ! i)[j := v]]"
    by (simp add: set_cell_def)
  have len: "length b' = length b" "length (b' ! n) = length (b ! n)" for n
    using ij(3) by (auto simp: b' nth_list_update)
  have "get_cell b' p = Some (b' ! k ! l)"
    using kl by (simp add: get_cell_def len)
  moreover have "b' ! k ! l = (if k = i \<and> l = j then v else x)"
    using ij kl by (auto simp: b' nth_list_update)
  ultimately show ?thesis by auto
qed

lemma make_move_to_empty_mset:
  assumes mk: "make_move s m = Some s'"
    and empty: "get_cell (board s) (snd m) = Some (CHR ''.'')"
  shows "mset (concat (board s')) = mset (concat (board s))"
proof -
  from mk obtain piece b1 b2 where
    g: "get_cell (board s) (fst m) = Some piece" and
    s1: "set_cell (board s) (snd m) piece = Some b1" and
    s2: "set_cell b1 (fst m) (CHR ''.'') = Some b2" and
    s': "board s' = b2"
    by (auto simp: make_move_def split: option.splits)
  have m1: "mset (concat b1) = add_mset piece (mset (concat (board s)) - {#CHR ''.''#})"
    by (rule set_cell_mset [OF s1 empty])
  have g1: "get_cell b1 (fst m) = Some piece"
    using get_after_set_cell [OF s1 empty g] by blast
  have m2: "mset (concat b2) = add_mset (CHR ''.'') (mset (concat b1) - {#piece#})"
    by (rule set_cell_mset [OF s2 g1])
  have "CHR ''.'' \<in># mset (concat (board s))"
    by (rule get_cell_in_mset [OF empty])
  then show ?thesis
    by (simp add: s' m2 m1)
qed

text \<open>
  No generated move captures: the multiset of the pieces is the same after every
  path of generated moves.
\<close>

lemma follow_path_pieces:
  "follow_path s path = Some s' \<Longrightarrow> pieces s' = pieces s"
proof (induction path arbitrary: s)
  case Nil
  then show ?case by simp
next
  case (Cons m path)
  from Cons.prems obtain legal s1 where
    g: "generate_legal_moves s = Some legal" and m: "m \<in> set legal" and
    mk: "make_move s m = Some s1" and rest: "follow_path s1 path = Some s'"
    by (auto split: option.splits if_splits)
  have "get_cell (board s) (snd m) = Some (CHR ''.'')"
    by (rule generated_moves_shape(1) [OF g m])
  then have "pieces s1 = pieces s"
    using make_move_to_empty_mset [OF mk] by (simp add: pieces_def)
  then show ?case using Cons.IH [OF rest] by simp
qed

text \<open>
  Claim C10 on the code. After the moves \<open>a2a8 h7h6 a1a3 h6h5\<close> from the start
  position White is to move with a pawn on row 0. For that pawn
  \<open>generate_legal_moves\<close> returns the move from row 0 to row \<open>-1\<close>, which Python reads
  as the last row: \<open>make_move\<close> puts the pawn on the other end of its column. This move
  is not a pawn push.
\<close>

theorem wrap_around_move_generated:
  "make_moves init_engine setup_moves = Some wrap_board
   \<and> generate_legal_moves wrap_board
       = Some [((0, 0), (- 1, 0)),
               ((6, 1), (5, 1)), ((6, 1), (4, 1)), ((6, 2), (5, 2)), ((6, 2), (4, 2)),
               ((6, 3), (5, 3)), ((6, 3), (4, 3)), ((6, 4), (5, 4)), ((6, 4), (4, 4)),
               ((6, 5), (5, 5)), ((6, 5), (4, 5)), ((6, 6), (5, 6)), ((6, 6), (4, 6)),
               ((6, 7), (5, 7)), ((6, 7), (4, 7))]
   \<and> \<not> is_pawn_push wrap_board ((0, 0), (- 1, 0))
   \<and> is_pawn_push wrap_board ((6, 1), (4, 1))
   \<and> make_move wrap_board ((0, 0), (- 1, 0)) = Some wrapped_board"
  by code_simp

end
